theory Spec2Isabelle
  imports Main
begin

section \<open>Strings and the paragraph separator\<close>

text \<open>
  A JavaScript string is a sequence of UTF-16 code units: \<open>length\<close>, \<open>slice\<close>,
  \<open>split\<close> and \<open>+\<close> all work on code units. It is modelled as a \<open>string\<close>
  (a list of characters), one element per code unit; nothing in \<open>splitMessage\<close>
  looks at a code unit except to compare it with the line feed.
\<close>

definition paraSep :: string where
  "paraSep = ''\<newline>\<newline>''"

text \<open>
  \<open>text.split('\n\n')\<close>: the string is scanned from the left; at each position where
  the separator matches, the segment read so far is emitted and the scan resumes after
  the separator (so matches never overlap); the rest of the string is the last segment.
  \<open>cur\<close> is the segment read so far.
\<close>

fun splitFrom :: "string \<Rightarrow> string \<Rightarrow> string list" where
  "splitFrom cur (a # b # cs) =
     (if a = CHR ''\<newline>'' \<and> b = CHR ''\<newline>''
      then cur # splitFrom [] cs
      else splitFrom (cur @ [a]) (b # cs))"
| "splitFrom cur cs = [cur @ cs]"

definition splitParagraphs :: "string \<Rightarrow> string list" where
  "splitParagraphs text = splitFrom [] text"

text \<open>\<open>s.includes('\n\n')\<close>: some position of the string holds the separator.\<close>

fun containsSep :: "string \<Rightarrow> bool" where
  "containsSep (a # b # cs) =
     ((a = CHR ''\<newline>'' \<and> b = CHR ''\<newline>'') \<or> containsSep (b # cs))"
| "containsSep cs = False"

section \<open>splitMessage\<close>

text \<open>
  The force-slice loop of \<open>splitMessage\<close>:
  \<^verbatim>\<open>let i = 0; while (i < p.length) { parts.push(p.slice(i, i + maxLen)); i += maxLen; }\<close>
  With \<open>maxLen = 0\<close> the index never advances and the loop does not return, which is
  the value \<open>None\<close>.
\<close>

partial_function (option) forceSlice :: "string \<Rightarrow> nat \<Rightarrow> nat \<Rightarrow> string list \<Rightarrow> string list option" where
  "forceSlice p i maxLen parts =
     (if i < length p
      then forceSlice p (i + maxLen) maxLen (parts @ [take maxLen (drop i p)])
      else Some parts)"

declare forceSlice.simps [code]

text \<open>
  One iteration of \<open>for (const p of paragraphs)\<close> on the two locals
  \<open>(parts, chunk)\<close>. A string is truthy exactly when it is not empty.
\<close>

definition paragraphStep :: "nat \<Rightarrow> string list \<times> string \<Rightarrow> string \<Rightarrow> (string list \<times> string) option" where
  "paragraphStep maxLen s p =
     (let parts = fst s; chunk = snd s;
          piece = (if chunk \<noteq> [] then paraSep @ p else p)
      in if length (chunk @ piece) > maxLen then
           (if chunk \<noteq> [] then Some (parts @ [chunk], p)
            else (case forceSlice p 0 maxLen parts of
                    None \<Rightarrow> None
                  | Some parts' \<Rightarrow> Some (parts', [])))
         else Some (parts, chunk @ piece))"

fun paragraphLoop :: "nat \<Rightarrow> string list \<Rightarrow> string list \<times> string \<Rightarrow> (string list \<times> string) option" where
  "paragraphLoop maxLen [] s = Some s"
| "paragraphLoop maxLen (p # ps) s =
     (case paragraphStep maxLen s p of
        None \<Rightarrow> None
      | Some s' \<Rightarrow> paragraphLoop maxLen ps s')"

text \<open>\<open>if (chunk) parts.push(chunk); return parts;\<close>\<close>

definition flush :: "string list \<times> string \<Rightarrow> string list" where
  "flush s = (if snd s \<noteq> [] then fst s @ [snd s] else fst s)"

definition splitMessage :: "string \<Rightarrow> nat \<Rightarrow> string list option" where
  "splitMessage text maxLen =
     (if text = [] then Some []
      else if length text \<le> maxLen then Some [text]
      else (case paragraphLoop maxLen (splitParagraphs text) ([], []) of
              None \<Rightarrow> None
            | Some s \<Rightarrow> Some (flush s)))"

section \<open>Specification-side functions\<close>

text \<open>
  Cutting a string into consecutive pieces of width \<open>n\<close>, the last one possibly
  shorter: the pieces the force-slice loop pushes when it returns.
\<close>

function slices :: "nat \<Rightarrow> string \<Rightarrow> string list" where
  "slices n xs = (if n = 0 \<or> xs = [] then [] else take n xs # slices n (drop n xs))"
  by pat_completeness auto
termination
  by (relation "measure (\<lambda>(n, xs). length xs)") auto

declare slices.simps [simp del]

text \<open>Joining paragraphs with the separator: \<open>paragraphs.join('\n\n')\<close>.\<close>

fun joinSep :: "string list \<Rightarrow> string" where
  "joinSep [] = []"
| "joinSep [p] = p"
| "joinSep (p # q # ps) = p @ paraSep @ joinSep (q # ps)"

section \<open>The chunks with their boundaries\<close>

text \<open>
  Which boundaries between two chunks are paragraph boundaries and which are hard-slice
  boundaries is not visible in the returned list, so the function is run a second time
  with one piece of bookkeeping added and nothing else changed: every chunk pushed
  carries the kind of boundary that precedes it. A piece of a force-sliced paragraph
  other than its first piece (\<open>i > 0\<close> in the loop) is preceded by a hard-slice
  boundary; every other chunk starts at a paragraph boundary (or at the start of the
  text). Forgetting the marks gives \<open>splitMessage\<close> back, which is proved below
  for every positive bound.
\<close>

datatype boundary = ParagraphBreak | HardSlice

partial_function (option) forceSliceMarked ::
    "string \<Rightarrow> nat \<Rightarrow> nat \<Rightarrow> (boundary \<times> string) list \<Rightarrow> (boundary \<times> string) list option" where
  "forceSliceMarked p i maxLen parts =
     (if i < length p
      then forceSliceMarked p (i + maxLen) maxLen
             (parts @ [(if i = 0 then ParagraphBreak else HardSlice, take maxLen (drop i p))])
      else Some parts)"

declare forceSliceMarked.simps [code]

definition paragraphStepMarked ::
    "nat \<Rightarrow> (boundary \<times> string) list \<times> string \<Rightarrow> string \<Rightarrow> ((boundary \<times> string) list \<times> string) option" where
  "paragraphStepMarked maxLen s p =
     (let parts = fst s; chunk = snd s;
          piece = (if chunk \<noteq> [] then paraSep @ p else p)
      in if length (chunk @ piece) > maxLen then
           (if chunk \<noteq> [] then Some (parts @ [(ParagraphBreak, chunk)], p)
            else (case forceSliceMarked p 0 maxLen parts of
                    None \<Rightarrow> None
                  | Some parts' \<Rightarrow> Some (parts', [])))
         else Some (parts, chunk @ piece))"

fun paragraphLoopMarked ::
    "nat \<Rightarrow> string list \<Rightarrow> (boundary \<times> string) list \<times> string \<Rightarrow> ((boundary \<times> string) list \<times> string) option" where
  "paragraphLoopMarked maxLen [] s = Some s"
| "paragraphLoopMarked maxLen (p # ps) s =
     (case paragraphStepMarked maxLen s p of
        None \<Rightarrow> None
      | Some s' \<Rightarrow> paragraphLoopMarked maxLen ps s')"

definition flushMarked :: "(boundary \<times> string) list \<times> string \<Rightarrow> (boundary \<times> string) list" where
  "flushMarked s = (if snd s \<noteq> [] then fst s @ [(ParagraphBreak, snd s)] else fst s)"

definition splitMessageMarked :: "string \<Rightarrow> nat \<Rightarrow> (boundary \<times> string) list option" where
  "splitMessageMarked text maxLen =
     (if text = [] then Some []
      else if length text \<le> maxLen then Some [(ParagraphBreak, text)]
      else (case paragraphLoopMarked maxLen (splitParagraphs text) ([], []) of
              None \<Rightarrow> None
            | Some s \<Rightarrow> Some (flushMarked s)))"

text \<open>
  Putting the text together again from the marked chunks: the separator goes back in
  front of every chunk that follows a paragraph boundary, nothing goes in front of a
  chunk that follows a hard-slice boundary, and nothing goes in front of the first chunk.
\<close>

fun glue :: "(boundary \<times> string) list \<Rightarrow> string" where
  "glue [] = []"
| "glue ((b, c) # rest) = (case b of ParagraphBreak \<Rightarrow> paraSep | HardSlice \<Rightarrow> []) @ c @ glue rest"

fun rejoin :: "(boundary \<times> string) list \<Rightarrow> string" where
  "rejoin [] = []"
| "rejoin ((b, c) # rest) = c @ glue rest"

text \<open>The marks the force-slice loop gives the pieces of one paragraph.\<close>

fun markPieces :: "string list \<Rightarrow> (boundary \<times> string) list" where
  "markPieces [] = []"
| "markPieces (c # cs) = (ParagraphBreak, c) # map (Pair HardSlice) cs"

section \<open>The force-slice loop\<close>

lemma slices_Nil [simp]: "slices n [] = []"
  by (simp add: slices.simps)

lemma slices_zero [simp]: "slices 0 xs = []"
  by (simp add: slices.simps)

lemma slices_step: "0 < n \<Longrightarrow> xs \<noteq> [] \<Longrightarrow> slices n xs = take n xs # slices n (drop n xs)"
  by (subst slices.simps) simp

lemma slices_eq_Nil: "slices n xs = [] \<longleftrightarrow> n = 0 \<or> xs = []"
  by (subst slices.simps) simp

lemma concat_slices: "0 < n \<Longrightarrow> concat (slices n xs) = xs"
proof (induction n xs rule: slices.induct)
  case (1 n xs)
  show ?case
  proof (cases "xs = []")
    case True
    then show ?thesis by simp
  next
    case False
    with 1 show ?thesis by (simp add: slices_step)
  qed
qed

lemma slices_bounds: "c \<in> set (slices n xs) \<Longrightarrow> c \<noteq> [] \<and> length c \<le> n"
proof (induction n xs rule: slices.induct)
  case (1 n xs)
  show ?case
  proof (cases "n = 0 \<or> xs = []")
    case True
    with 1(2) show ?thesis by auto
  next
    case False
    then have "slices n xs = take n xs # slices n (drop n xs)"
      by (simp add: slices_step)
    with 1 False show ?thesis by auto
  qed
qed

lemma length_slices: "0 < n \<Longrightarrow> length (slices n xs) = (length xs + n - 1) div n"
proof (induction n xs rule: slices.induct)
  case (1 n xs)
  show ?case
  proof (cases "xs = []")
    case True
    with 1(2) show ?thesis by simp
  next
    case False
    show ?thesis
    proof (cases "length xs \<le> n")
      case True
      moreover from False have "0 < length xs" by simp
      ultimately have "n * 1 \<le> length xs + n - 1" "length xs + n - 1 < n * Suc 1"
        by arith+
      then have "(length xs + n - 1) div n = 1"
        by (rule div_nat_eqI)
      with True False 1(2) show ?thesis by (simp add: slices_step)
    next
      case long: False
      define m where "m = length xs - n + n - 1"
      from long have e: "length xs + n - 1 = m + n"
        unfolding m_def by arith
      have "(m + n) div n = Suc (m div n)"
        using 1(2) by (simp add: div_add_self2)
      moreover have "length (slices n xs) = Suc (length (slices n (drop n xs)))"
        using False 1(2) by (simp add: slices_step)
      moreover have "length (slices n (drop n xs)) = m div n"
        using 1 False unfolding m_def by simp
      ultimately show ?thesis
        by (simp only: e)
    qed
  qed
qed

lemma nth_slices: "k < length (slices n xs) \<Longrightarrow> slices n xs ! k = take n (drop (k * n) xs)"
proof (induction n xs arbitrary: k rule: slices.induct)
  case (1 n xs)
  from 1(2) have ne: "0 < n" "xs \<noteq> []"
    by (auto simp: slices_eq_Nil intro: ccontr)
  then have st: "slices n xs = take n xs # slices n (drop n xs)"
    by (simp add: slices_step)
  show ?case
  proof (cases k)
    case 0
    with st show ?thesis by simp
  next
    case (Suc j)
    with 1(2) st have "j < length (slices n (drop n xs))" by simp
    with 1(1) ne have "slices n (drop n xs) ! j = take n (drop (j * n) (drop n xs))" by simp
    with st Suc show ?thesis by (simp add: add.commute)
  qed
qed

lemma forceSlice_slices:
  assumes "0 < maxLen"
  shows "forceSlice p i maxLen parts = Some (parts @ slices maxLen (drop i p))"
proof (induction "length p - i" arbitrary: i parts rule: less_induct)
  case less
  show ?case
  proof (cases "i < length p")
    case True
    with assms have "length p - (i + maxLen) < length p - i" by arith
    then have "forceSlice p (i + maxLen) maxLen (parts @ [take maxLen (drop i p)])
        = Some ((parts @ [take maxLen (drop i p)]) @ slices maxLen (drop (i + maxLen) p))"
      by (rule less.hyps)
    moreover have "slices maxLen (drop i p) = take maxLen (drop i p) # slices maxLen (drop (i + maxLen) p)"
      using True assms by (simp add: slices_step add.commute)
    ultimately show ?thesis
      using True by (subst forceSlice.simps) simp
  next
    case False
    then show ?thesis by (subst forceSlice.simps) simp
  qed
qed

text \<open>With the bound 0 the loop never leaves a paragraph it has entered.\<close>

lemma forceSlice_returns_pos:
  assumes "forceSlice p i maxLen parts = Some y"
  shows "\<not> (maxLen = 0 \<and> i < length p)"
  using assms
proof (rule forceSlice.raw_induct [where P = "\<lambda>p i maxLen parts y. \<not> (maxLen = 0 \<and> i < length p)", rotated])
  fix f p i maxLen parts y
  assume ih: "\<And>p i maxLen parts y. f p i maxLen parts = Some y \<Longrightarrow> \<not> (maxLen = 0 \<and> i < length p)"
    and st: "(if i < length p
      then f p (i + maxLen) maxLen (parts @ [take maxLen (drop i p)])
      else Some parts) = Some y"
  show "\<not> (maxLen = 0 \<and> i < length p)"
  proof
    assume a: "maxLen = 0 \<and> i < length p"
    with st have "f p (i + maxLen) maxLen (parts @ [take maxLen (drop i p)]) = Some y"
      by simp
    from ih [OF this] a show False by simp
  qed
qed

lemma forceSlice_zero: "i < length p \<Longrightarrow> forceSlice p i 0 parts = None"
  using forceSlice_returns_pos [of p i 0 parts] by (cases "forceSlice p i 0 parts") auto

section \<open>Paragraph splitting\<close>

lemma paraSep_length [simp]: "length paraSep = 2"
  by (simp add: paraSep_def)

lemma paraSep_not_Nil [simp]: "paraSep \<noteq> []"
  by (simp add: paraSep_def)

lemma splitFrom_not_Nil [simp]: "splitFrom cur cs \<noteq> []"
  by (induction cur cs rule: splitFrom.induct) auto

lemma joinSep_Cons: "ps \<noteq> [] \<Longrightarrow> joinSep (p # ps) = p @ paraSep @ joinSep ps"
  by (cases ps) simp_all

lemma joinSep_splitFrom: "joinSep (splitFrom cur cs) = cur @ cs"
  by (induction cur cs rule: splitFrom.induct) (auto simp: joinSep_Cons paraSep_def)

lemma joinSep_splitParagraphs: "joinSep (splitParagraphs text) = text"
  by (simp add: splitParagraphs_def joinSep_splitFrom)

lemma splitFrom_no_sep: "\<not> containsSep cs \<Longrightarrow> splitFrom cur cs = [cur @ cs]"
  by (induction cur cs rule: splitFrom.induct) auto

lemma splitParagraphs_no_sep: "\<not> containsSep text \<Longrightarrow> splitParagraphs text = [text]"
  by (simp add: splitParagraphs_def splitFrom_no_sep)

lemma length_joinSep:
  "length (joinSep ps) = sum_list (map length ps) + 2 * (length ps - 1)"
  by (induction ps rule: joinSep.induct) simp_all

section \<open>The paragraph loop for a positive bound\<close>

lemma paragraphStep_pos:
  assumes "0 < maxLen"
  shows "paragraphStep maxLen (parts, chunk) p = Some
     (if chunk \<noteq> [] then
        (if maxLen < length chunk + 2 + length p then (parts @ [chunk], p)
         else (parts, chunk @ paraSep @ p))
      else
        (if maxLen < length p then (parts @ slices maxLen p, [])
         else (parts, p)))"
  by (simp add: paragraphStep_def forceSlice_slices [OF assms])

lemma paragraphStep_total:
  assumes "0 < maxLen"
  shows "\<exists>s'. paragraphStep maxLen s p = Some s'"
  using paragraphStep_pos [OF assms, of "fst s" "snd s" p] by simp

lemma paragraphLoop_total:
  assumes "0 < maxLen"
  shows "\<exists>s'. paragraphLoop maxLen ps s = Some s'"
proof (induction ps arbitrary: s)
  case Nil
  show ?case by simp
next
  case (Cons p ps)
  from paragraphStep_total [OF assms] obtain s1 where "paragraphStep maxLen s p = Some s1"
    by blast
  with Cons show ?case by simp
qed

lemma paragraphLoop_append:
  "paragraphLoop maxLen (ps @ qs) s =
     (case paragraphLoop maxLen ps s of None \<Rightarrow> None | Some s' \<Rightarrow> paragraphLoop maxLen qs s')"
  by (induction ps arbitrary: s) (auto split: option.splits)

text \<open>An invariant of the two locals that every iteration keeps holds when the loop ends.\<close>

lemma paragraphLoop_invariant:
  assumes step: "\<And>s p s'. I s \<Longrightarrow> paragraphStep maxLen s p = Some s' \<Longrightarrow> I s'"
    and "I s" and "paragraphLoop maxLen ps s = Some s'"
  shows "I s'"
  using assms(2,3)
proof (induction ps arbitrary: s)
  case Nil
  then show ?case by simp
next
  case (Cons p ps)
  from Cons.prems(2) obtain s1 where s1: "paragraphStep maxLen s p = Some s1"
    and rest: "paragraphLoop maxLen ps s1 = Some s'"
    by (auto split: option.splits)
  from step [OF Cons.prems(1) s1] rest show ?case by (rule Cons.IH)
qed

lemma splitMessage_long:
  assumes "maxLen < length text"
  shows "splitMessage text maxLen =
     (case paragraphLoop maxLen (splitParagraphs text) ([], []) of
        None \<Rightarrow> None | Some s \<Rightarrow> Some (flush s))"
  using assms by (auto simp: splitMessage_def)

lemma splitMessage_total:
  assumes "0 < maxLen"
  shows "\<exists>parts. splitMessage text maxLen = Some parts"
proof -
  from paragraphLoop_total [OF assms]
  obtain s where "paragraphLoop maxLen (splitParagraphs text) ([], []) = Some s"
    by blast
  then show ?thesis by (simp add: splitMessage_def)
qed

lemma nonempty_step:
  assumes "0 < maxLen" and "\<forall>c\<in>set (fst s). c \<noteq> []"
    and "paragraphStep maxLen s p = Some s'"
  shows "\<forall>c\<in>set (fst s'). c \<noteq> []"
  using assms(2,3) paragraphStep_pos [OF assms(1), of "fst s" "snd s" p]
  by (auto split: if_splits dest: slices_bounds)

lemma nonempty_loop:
  assumes "0 < maxLen" and "\<forall>c\<in>set (fst s). c \<noteq> []"
    and "paragraphLoop maxLen ps s = Some s'"
  shows "\<forall>c\<in>set (fst s'). c \<noteq> []"
  using assms(2,3)
  by (rule paragraphLoop_invariant [where I = "\<lambda>s. \<forall>c\<in>set (fst s). c \<noteq> []", rotated])
    (rule nonempty_step [OF assms(1)])

section \<open>Termination\<close>

text \<open>
  The bound must be positive: with the bound 0, a text whose first paragraph is not
  empty sends \<open>splitMessage\<close> into the force-slice loop for good.
\<close>

lemma splitMessage_zero_diverges:
  assumes "splitParagraphs text = p # ps" and "p \<noteq> []"
  shows "splitMessage text 0 = None"
proof -
  have "text \<noteq> []"
    using assms joinSep_splitParagraphs [of "text"] by (cases ps) auto
  with assms show ?thesis
    by (simp add: splitMessage_def paragraphStep_def forceSlice_zero)
qed

text \<open>
  Claim C4. For every string and every bound \<open>maxLen \<ge> 1\<close>, \<open>splitMessage\<close>
  returns: the force-slice loop advances by \<open>maxLen\<close> each time round and ends, and
  no step of the function raises.
\<close>

theorem splitMessage_terminates:
  "1 \<le> maxLen \<Longrightarrow> \<exists>parts. splitMessage text maxLen = Some parts"
  by (rule splitMessage_total) simp

theorem splitMessage_terminates_witness:
  "(1::nat) \<le> 3 \<and> splitMessage ''abcdefg'' 3 = Some [''abc'', ''def'', ''g'']"
proof -
  have e: "splitMessage ''abcdefg'' 3 = Some [''abc'', ''def'', ''g'']"
    by code_simp
  from splitMessage_terminates [of 3 "''abcdefg''"] e show ?thesis
    by simp
qed

section \<open>Short texts\<close>

text \<open>
  Claim C5. A non-empty text no longer than \<open>maxLen\<close> is returned whole, as the only
  chunk.
\<close>

theorem splitMessage_short:
  "text \<noteq> [] \<Longrightarrow> length text \<le> maxLen \<Longrightarrow> splitMessage text maxLen = Some [text]"
  by (simp add: splitMessage_def)

theorem splitMessage_short_witness:
  "''Para1'' \<noteq> [] \<and> length ''Para1'' \<le> (2000::nat) \<and> splitMessage ''Para1'' 2000 = Some [''Para1'']"
  using splitMessage_short [of "''Para1''" 2000] by simp

section \<open>No empty chunk\<close>

text \<open>
  Claim C9. For every string and every positive bound, \<open>splitMessage\<close> returns, and
  every chunk it returns is a non-empty string.
\<close>

theorem splitMessage_chunks_nonempty:
  assumes "0 < maxLen"
  shows "\<exists>parts. splitMessage text maxLen = Some parts \<and> (\<forall>c\<in>set parts. c \<noteq> [])"
proof -
  from splitMessage_total [OF assms] obtain parts where r: "splitMessage text maxLen = Some parts"
    by blast
  have "\<forall>c\<in>set parts. c \<noteq> []"
  proof (cases "length text \<le> maxLen")
    case True
    with r show ?thesis by (auto simp: splitMessage_def split: if_splits)
  next
    case False
    with r obtain s where l: "paragraphLoop maxLen (splitParagraphs text) ([], []) = Some s"
      and p: "parts = flush s"
      by (auto simp: splitMessage_long split: option.splits)
    from nonempty_loop [OF assms _ l] have "\<forall>c\<in>set (fst s). c \<noteq> []" by simp
    with p show ?thesis by (auto simp: flush_def)
  qed
  with r show ?thesis by blast
qed

theorem splitMessage_chunks_nonempty_witness:
  "(0::nat) < 3 \<and> splitMessage ''\<newline>\<newline>abcd\<newline>\<newline>'' 3 = Some [''abc'', ''d'']
     \<and> ''abc'' \<noteq> [] \<and> ''d'' \<noteq> []"
proof -
  have e: "splitMessage ''\<newline>\<newline>abcd\<newline>\<newline>'' 3 = Some [''abc'', ''d'']"
    by code_simp
  from splitMessage_chunks_nonempty [of 3 "''\<newline>\<newline>abcd\<newline>\<newline>''"] e
  show ?thesis by simp
qed

section \<open>When the result is empty\<close>

lemma some_output_step:
  assumes "0 < maxLen" and "fst s \<noteq> [] \<or> snd s \<noteq> []"
    and "paragraphStep maxLen s p = Some s'"
  shows "fst s' \<noteq> [] \<or> snd s' \<noteq> []"
  using assms(2,3) paragraphStep_pos [OF assms(1), of "fst s" "snd s" p]
  by (auto split: if_splits)

lemma some_output_loop:
  assumes "0 < maxLen" and "fst s \<noteq> [] \<or> snd s \<noteq> []"
    and "paragraphLoop maxLen ps s = Some s'"
  shows "fst s' \<noteq> [] \<or> snd s' \<noteq> []"
  using assms(2,3)
  by (rule paragraphLoop_invariant [where I = "\<lambda>s. fst s \<noteq> [] \<or> snd s \<noteq> []", rotated])
    (rule some_output_step [OF assms(1)])

lemma nonempty_paragraph_step:
  assumes "0 < maxLen" and "p \<noteq> []" and "paragraphStep maxLen s p = Some s'"
  shows "fst s' \<noteq> [] \<or> snd s' \<noteq> []"
  using assms paragraphStep_pos [OF assms(1), of "fst s" "snd s" p]
  by (auto simp: slices_eq_Nil split: if_splits)

lemma nonempty_paragraph_loop:
  assumes "0 < maxLen" and "\<exists>p\<in>set ps. p \<noteq> []"
    and "paragraphLoop maxLen ps s = Some s'"
  shows "fst s' \<noteq> [] \<or> snd s' \<noteq> []"
  using assms(2,3)
proof (induction ps arbitrary: s)
  case Nil
  then show ?case by simp
next
  case (Cons p ps)
  from Cons.prems(2) obtain s1 where s1: "paragraphStep maxLen s p = Some s1"
    and rest: "paragraphLoop maxLen ps s1 = Some s'"
    by (auto split: option.splits)
  show ?case
  proof (cases "p = []")
    case True
    with Cons.prems(1) have "\<exists>p\<in>set ps. p \<noteq> []" by simp
    then show ?thesis using rest by (rule Cons.IH)
  next
    case False
    from nonempty_paragraph_step [OF assms(1) False s1] rest show ?thesis
      by (rule some_output_loop [OF assms(1)])
  qed
qed

lemma empty_paragraph_step: "paragraphStep maxLen ([], []) [] = Some ([], [])"
  by (simp add: paragraphStep_def)

lemma empty_paragraphs_loop:
  "\<forall>p\<in>set ps. p = [] \<Longrightarrow> paragraphLoop maxLen ps ([], []) = Some ([], [])"
  by (induction ps) (simp_all add: empty_paragraph_step)

lemma flush_eq_Nil: "flush s = [] \<longleftrightarrow> fst s = [] \<and> snd s = []"
  by (simp add: flush_def)

text \<open>
  Claim C3, as the code has it. For every string and every positive bound,
  \<open>splitMessage\<close> returns the empty sequence exactly when the text is empty, or the
  text is longer than the bound and every one of its paragraphs is empty (the text is
  made of separators only). In particular the empty text gives the empty sequence, not
  a sequence holding one empty string.
\<close>

theorem splitMessage_empty_iff:
  assumes "0 < maxLen"
  shows "\<exists>parts. splitMessage text maxLen = Some parts \<and>
     (parts = [] \<longleftrightarrow>
        text = [] \<or> (maxLen < length text \<and> (\<forall>p\<in>set (splitParagraphs text). p = [])))"
proof (cases "length text \<le> maxLen")
  case True
  then show ?thesis by (auto simp: splitMessage_def)
next
  case False
  then have long: "maxLen < length text" and ne: "text \<noteq> []" by auto
  from paragraphLoop_total [OF assms]
  obtain s where l: "paragraphLoop maxLen (splitParagraphs text) ([], []) = Some s"
    by blast
  then have r: "splitMessage text maxLen = Some (flush s)"
    using long by (simp add: splitMessage_long)
  have "flush s = [] \<longleftrightarrow> (\<forall>p\<in>set (splitParagraphs text). p = [])"
  proof
    assume e: "flush s = []"
    show "\<forall>p\<in>set (splitParagraphs text). p = []"
    proof (rule ccontr)
      assume "\<not> (\<forall>p\<in>set (splitParagraphs text). p = [])"
      then have "\<exists>p\<in>set (splitParagraphs text). p \<noteq> []" by simp
      from nonempty_paragraph_loop [OF assms this l] e show False
        by (simp add: flush_eq_Nil)
    qed
  next
    assume "\<forall>p\<in>set (splitParagraphs text). p = []"
    from empty_paragraphs_loop [OF this, of maxLen] l show "flush s = []"
      by (auto simp: flush_def)
  qed
  with r long ne show ?thesis by simp
qed

theorem splitMessage_empty_iff_witness:
  "(0::nat) < 3 \<and> splitMessage ''\<newline>\<newline>abcd'' 3 = Some [''abc'', ''d'']
     \<and> splitParagraphs ''\<newline>\<newline>abcd'' = [[], ''abcd'']
     \<and> splitMessage [] 3 = Some []"
proof -
  have e: "splitMessage ''\<newline>\<newline>abcd'' 3 = Some [''abc'', ''d'']"
    "splitParagraphs ''\<newline>\<newline>abcd'' = [[], ''abcd'']"
    "splitMessage [] 3 = Some []"
    by code_simp+
  from splitMessage_empty_iff [of 3 "''\<newline>\<newline>abcd''"] e show ?thesis
    by simp
qed

text \<open>
  Claim C3 as the specification states it (the result is empty only for the empty
  text) fails: a text of two separators is not empty, is longer than the bound 3, and
  gives the empty sequence.
\<close>

theorem splitMessage_nonempty_text_empty_result:
  "splitMessage ''\<newline>\<newline>\<newline>\<newline>'' 3 = Some []
     \<and> ''\<newline>\<newline>\<newline>\<newline>'' \<noteq> []"
  by code_simp

section \<open>A text that is one paragraph\<close>

lemma splitMessage_single_paragraph:
  assumes "0 < maxLen" and "\<not> containsSep text" and "maxLen < length text"
  shows "splitMessage text maxLen = Some (slices maxLen text)"
  using assms
  by (simp add: splitMessage_long splitParagraphs_no_sep paragraphStep_pos flush_def)

lemma no_linefeed_no_sep: "CHR ''\<newline>'' \<notin> set xs \<Longrightarrow> \<not> containsSep xs"
  by (induction xs rule: containsSep.induct) auto

text \<open>
  Claim C10. On a text that holds no separator, and for a positive bound, the chunks
  concatenated with nothing between them are the text.
\<close>

theorem splitMessage_no_sep_concat:
  assumes "0 < maxLen" and "\<not> containsSep text"
  shows "\<exists>parts. splitMessage text maxLen = Some parts \<and> concat parts = text"
proof (cases "length text \<le> maxLen")
  case True
  then show ?thesis by (auto simp: splitMessage_def)
next
  case False
  then have "splitMessage text maxLen = Some (slices maxLen text)"
    using assms by (simp add: splitMessage_single_paragraph)
  with assms(1) show ?thesis by (simp add: concat_slices)
qed

theorem splitMessage_no_sep_concat_witness:
  "(0::nat) < 3 \<and> \<not> containsSep ''ab\<newline>cdefg'' \<and>
     splitMessage ''ab\<newline>cdefg'' 3 = Some [''ab\<newline>'', ''cde'', ''fg''] \<and>
     concat [''ab\<newline>'', ''cde'', ''fg''] = ''ab\<newline>cdefg''"
proof -
  have e: "splitMessage ''ab\<newline>cdefg'' 3 = Some [''ab\<newline>'', ''cde'', ''fg'']"
    "\<not> containsSep ''ab\<newline>cdefg''"
    by code_simp+
  from splitMessage_no_sep_concat [of 3 "''ab\<newline>cdefg''"] e show ?thesis
    by simp
qed

lemma length_nth_slices: "Suc k < length (slices n xs) \<Longrightarrow> length (slices n xs ! k) = n"
proof (induction n xs arbitrary: k rule: slices.induct)
  case (1 n xs)
  from 1(2) have ne: "0 < n" "xs \<noteq> []"
    by (auto simp: slices_eq_Nil intro: ccontr)
  then have st: "slices n xs = take n xs # slices n (drop n xs)"
    by (simp add: slices_step)
  show ?case
  proof (cases k)
    case 0
    with 1(2) st have "slices n (drop n xs) \<noteq> []" by auto
    then have "n < length xs" by (simp add: slices_eq_Nil)
    with st 0 show ?thesis by simp
  next
    case (Suc j)
    with 1(2) st have "Suc j < length (slices n (drop n xs))" by simp
    with 1(1) ne have "length (slices n (drop n xs) ! j) = n" by simp
    with st Suc show ?thesis by simp
  qed
qed

lemma slices_three:
  assumes "0 < n" and "length xs = 3 * n"
  shows "slices n xs = [take n xs, take n (drop n xs), take n (drop (2 * n) xs)]"
proof -
  from assms have a: "xs \<noteq> []" "drop n xs \<noteq> []" "drop (2 * n) xs \<noteq> []"
    by auto
  have c: "drop n (drop n xs) = drop (2 * n) xs" "drop n (drop (2 * n) xs) = drop (3 * n) xs"
  proof -
    have "n + n = 2 * n" "n + 2 * n = 3 * n" by arith+
    then show "drop n (drop n xs) = drop (2 * n) xs" "drop n (drop (2 * n) xs) = drop (3 * n) xs"
      by (simp_all only: drop_drop add.commute)
  qed
  from assms have d: "slices n (drop (3 * n) xs) = []"
    by simp
  have "slices n xs = take n xs # slices n (drop n xs)"
    using assms(1) a(1) by (rule slices_step)
  also have "slices n (drop n xs) = take n (drop n xs) # slices n (drop (2 * n) xs)"
    using slices_step [OF assms(1) a(2)] by (simp only: c)
  also have "slices n (drop (2 * n) xs) = [take n (drop (2 * n) xs)]"
    using slices_step [OF assms(1) a(3)] by (simp only: c d)
  finally show ?thesis .
qed

lemma slices_example:
  "slices 2000 (replicate 2500 c) = [replicate 2000 c, replicate 500 c]"
proof -
  have "slices 2000 (replicate 2500 c) = replicate 2000 c # slices 2000 (replicate 500 c)"
    by (subst slices_step) simp_all
  also have "slices 2000 (replicate 500 c) = [replicate 500 c]"
    by (subst slices_step) simp_all
  finally show ?thesis .
qed

text \<open>
  Claim C6. For a positive bound, a text that is a single paragraph (it holds no
  separator) and is longer than the bound is cut into consecutive pieces of exactly
  \<open>maxLen\<close> characters, the last one possibly shorter: piece \<open>k\<close> is the \<open>maxLen\<close>
  characters of the text from position \<open>k * maxLen\<close>. A text of length
  \<open>3 * maxLen\<close> gives exactly three chunks of length \<open>maxLen\<close>, and 2500 times
  \<open>A\<close> with the bound 2000 gives 2000 times \<open>A\<close>, then 500 times \<open>A\<close>.
\<close>

theorem splitMessage_hard_slices:
  assumes "0 < maxLen" and "\<not> containsSep text" and "maxLen < length text"
  shows "(\<exists>parts. splitMessage text maxLen = Some parts \<and>
            length parts = (length text + maxLen - 1) div maxLen \<and>
            (\<forall>k<length parts. parts ! k = take maxLen (drop (k * maxLen) text)) \<and>
            (\<forall>k. Suc k < length parts \<longrightarrow> length (parts ! k) = maxLen) \<and>
            (length text = 3 * maxLen \<longrightarrow>
               parts = [take maxLen text, take maxLen (drop maxLen text),
                        take maxLen (drop (2 * maxLen) text)] \<and>
               (\<forall>c\<in>set parts. length c = maxLen)))
       \<and> splitMessage (replicate 2500 CHR ''A'') 2000
           = Some [replicate 2000 CHR ''A'', replicate 500 CHR ''A'']"
proof
  have r: "splitMessage text maxLen = Some (slices maxLen text)"
    using assms by (rule splitMessage_single_paragraph)
  have three: "slices maxLen text = [take maxLen text, take maxLen (drop maxLen text),
        take maxLen (drop (2 * maxLen) text)] \<and> (\<forall>c\<in>set (slices maxLen text). length c = maxLen)"
    if "length text = 3 * maxLen"
    using that slices_three [OF assms(1) that] by simp
  show "\<exists>parts. splitMessage text maxLen = Some parts \<and>
            length parts = (length text + maxLen - 1) div maxLen \<and>
            (\<forall>k<length parts. parts ! k = take maxLen (drop (k * maxLen) text)) \<and>
            (\<forall>k. Suc k < length parts \<longrightarrow> length (parts ! k) = maxLen) \<and>
            (length text = 3 * maxLen \<longrightarrow>
               parts = [take maxLen text, take maxLen (drop maxLen text),
                        take maxLen (drop (2 * maxLen) text)] \<and>
               (\<forall>c\<in>set parts. length c = maxLen))"
  proof -
    let ?ps = "slices maxLen text"
    have 1: "length ?ps = (length text + maxLen - 1) div maxLen"
      using assms(1) by (rule length_slices)
    have 2: "\<forall>k<length ?ps. ?ps ! k = take maxLen (drop (k * maxLen) text)"
      by (simp add: nth_slices)
    have 3: "\<forall>k. Suc k < length ?ps \<longrightarrow> length (?ps ! k) = maxLen"
      by (simp add: length_nth_slices)
    have 4: "length text = 3 * maxLen \<longrightarrow>
        ?ps = [take maxLen text, take maxLen (drop maxLen text),
               take maxLen (drop (2 * maxLen) text)] \<and>
        (\<forall>c\<in>set ?ps. length c = maxLen)"
      using three by blast
    from r 1 2 3 4 show ?thesis by blast
  qed
next
  have "\<not> containsSep (replicate 2500 CHR ''A'')"
    by (rule no_linefeed_no_sep) simp
  then have "splitMessage (replicate 2500 CHR ''A'') 2000 = Some (slices 2000 (replicate 2500 CHR ''A''))"
    by (intro splitMessage_single_paragraph) simp_all
  then show "splitMessage (replicate 2500 CHR ''A'') 2000
      = Some [replicate 2000 CHR ''A'', replicate 500 CHR ''A'']"
    by (simp only: slices_example)
qed

theorem splitMessage_hard_slices_witness:
  "(0::nat) < 2 \<and> \<not> containsSep ''abcdef'' \<and> 2 < length ''abcdef'' \<and>
     length ''abcdef'' = 3 * 2 \<and> splitMessage ''abcdef'' 2 = Some [''ab'', ''cd'', ''ef'']"
proof -
  have e: "\<not> containsSep ''abcdef''"
    by code_simp
  from splitMessage_hard_slices [of 2 "''abcdef''"] e show ?thesis
    by auto
qed

section \<open>Texts of two paragraphs\<close>

text \<open>No paragraph that \<open>split\<close> returns holds a separator.\<close>

lemma containsSep_snoc:
  "containsSep (u @ [a]) \<longleftrightarrow>
     containsSep u \<or> (u \<noteq> [] \<and> last u = CHR ''\<newline>'' \<and> a = CHR ''\<newline>'')"
  by (induction u rule: containsSep.induct) auto

lemma splitFrom_no_sep_inside:
  assumes "\<not> containsSep (cur @ take 1 cs)"
  shows "\<forall>p\<in>set (splitFrom cur cs). \<not> containsSep p"
  using assms
proof (induction cur cs rule: splitFrom.induct)
  case (1 cur a b cs)
  show ?case
  proof (cases "a = CHR ''\<newline>'' \<and> b = CHR ''\<newline>''")
    case True
    from 1(3) have "\<not> containsSep cur"
      by (simp add: containsSep_snoc)
    moreover have "\<not> containsSep ([] @ take 1 cs)"
      by (cases cs) simp_all
    with 1(1) True have "\<forall>p\<in>set (splitFrom [] cs). \<not> containsSep p"
      by simp
    ultimately show ?thesis using True by simp
  next
    case False
    from 1(3) have "\<not> containsSep (cur @ [a])"
      by simp
    with False have "\<not> containsSep ((cur @ [a]) @ [b])"
      using containsSep_snoc [of "cur @ [a]" b] by simp
    then have "\<not> containsSep ((cur @ [a]) @ take 1 (b # cs))"
      by simp
    with 1(2) False have "\<forall>p\<in>set (splitFrom (cur @ [a]) (b # cs)). \<not> containsSep p"
      by blast
    moreover from False have "splitFrom cur (a # b # cs) = splitFrom (cur @ [a]) (b # cs)"
      by auto
    ultimately show ?thesis by (simp only:)
  qed
qed simp_all

lemma splitParagraphs_no_sep_inside: "p \<in> set (splitParagraphs text) \<Longrightarrow> \<not> containsSep p"
proof -
  have "\<not> containsSep ([] @ take 1 text)"
    by (cases "text") simp_all
  then have "\<forall>p\<in>set (splitFrom [] text). \<not> containsSep p"
    by (rule splitFrom_no_sep_inside)
  then show "p \<in> set (splitParagraphs text) \<Longrightarrow> \<not> containsSep p"
    by (simp add: splitParagraphs_def)
qed

lemma splitFrom_junction:
  assumes "\<not> containsSep u" and "u = [] \<or> last u \<noteq> CHR ''\<newline>''"
  shows "splitFrom cur (u @ paraSep @ v) = (cur @ u) # splitFrom [] v"
  using assms
proof (induction u arbitrary: cur rule: containsSep.induct)
  case (1 a b cs)
  then have "splitFrom (cur @ [a]) ((b # cs) @ paraSep @ v) = ((cur @ [a]) @ b # cs) # splitFrom [] v"
    by (intro "1.IH") auto
  with "1.prems" show ?case by auto
qed (simp_all add: paraSep_def)

lemma splitParagraphs_two:
  assumes "\<not> containsSep u" and "u = [] \<or> last u \<noteq> CHR ''\<newline>''" and "\<not> containsSep v"
  shows "splitParagraphs (u @ paraSep @ v) = [u, v]"
  using splitFrom_junction [OF assms(1,2), of "[]" v] assms(3)
  by (simp add: splitParagraphs_def splitFrom_no_sep)

lemma splitMessage_two_paragraphs:
  assumes "0 < maxLen" and "splitParagraphs text = [p1, p2]"
    and "p1 \<noteq> []" and "length p1 \<le> maxLen" and "p2 \<noteq> []"
    and "maxLen < length p1 + 2 + length p2"
  shows "splitMessage text maxLen = Some [p1, p2]"
proof -
  have "text = p1 @ paraSep @ p2"
    using joinSep_splitParagraphs [of "text"] assms(2) by simp
  with assms(6) have "maxLen < length text" by simp
  with assms show ?thesis
    by (simp add: splitMessage_long paragraphStep_pos flush_def)
qed

text \<open>
  Claim C8. Let the text consist of exactly two paragraphs \<open>para1\<close> and \<open>para2\<close>
  (the elements of \<open>text.split("\n\n")\<close>), each of length 1900. Then the text is
  \<open>para1\<close> and \<open>para2\<close> joined by one separator, neither paragraph holds a
  separator, and \<open>splitMessage\<close> with the bound 2000 returns exactly
  \<open>[para1, para2]\<close>: joining them would take 3802 characters.
\<close>

theorem splitMessage_two_long_paragraphs:
  assumes "splitParagraphs text = [para1, para2]"
    and "length para1 = 1900" and "length para2 = 1900"
  shows "text = para1 @ paraSep @ para2 \<and>
         \<not> containsSep para1 \<and> \<not> containsSep para2 \<and>
         splitMessage text 2000 = Some [para1, para2]"
proof -
  have j: "text = para1 @ paraSep @ para2"
    using joinSep_splitParagraphs [of "text"] assms(1) by simp
  have n: "\<not> containsSep para1" "\<not> containsSep para2"
    by (rule splitParagraphs_no_sep_inside [of _ "text"], simp add: assms(1))+
  from assms(2,3) have "para1 \<noteq> []" "para2 \<noteq> []" by auto
  with assms have "splitMessage text 2000 = Some [para1, para2]"
    by (intro splitMessage_two_paragraphs) simp_all
  with j n show ?thesis by simp
qed

theorem splitMessage_two_long_paragraphs_witness:
  "splitParagraphs (replicate 1900 CHR ''a'' @ paraSep @ replicate 1900 CHR ''b'')
     = [replicate 1900 CHR ''a'', replicate 1900 CHR ''b''] \<and>
   length (replicate 1900 CHR ''a'') = 1900 \<and> length (replicate 1900 CHR ''b'') = 1900 \<and>
   splitMessage (replicate 1900 CHR ''a'' @ paraSep @ replicate 1900 CHR ''b'') 2000
     = Some [replicate 1900 CHR ''a'', replicate 1900 CHR ''b'']"
proof -
  have a: "\<not> containsSep (replicate 1900 CHR ''a'')" "\<not> containsSep (replicate 1900 CHR ''b'')"
    by (rule no_linefeed_no_sep, simp)+
  then have s: "splitParagraphs (replicate 1900 CHR ''a'' @ paraSep @ replicate 1900 CHR ''b'')
      = [replicate 1900 CHR ''a'', replicate 1900 CHR ''b'']"
    by (intro splitParagraphs_two) simp_all
  from splitMessage_two_long_paragraphs [OF s] s show ?thesis
    by simp
qed

section \<open>An over-long paragraph behind a filled buffer\<close>

text \<open>
  Claim C1 says that every chunk has length at most \<open>maxLen\<close>. The code returns a
  chunk of 2001 characters for the bound 2000 when an over-long paragraph follows a
  paragraph that is already in the buffer: the buffer is pushed and the paragraph becomes
  the new buffer whole, without the force-slice of the other branch.
\<close>

theorem splitMessage_overlong_chunk:
  "splitMessage (''a'' @ paraSep @ replicate 2001 CHR ''b'') 2000
     = Some [''a'', replicate 2001 CHR ''b''] \<and>
   2000 < length (replicate 2001 CHR ''b'')"
proof -
  have "\<not> containsSep ''a''" "\<not> containsSep (replicate 2001 CHR ''b'')"
    by (rule no_linefeed_no_sep, simp)+
  then have "splitParagraphs (''a'' @ paraSep @ replicate 2001 CHR ''b'') = [''a'', replicate 2001 CHR ''b'']"
    by (intro splitParagraphs_two) simp_all
  then have "splitMessage (''a'' @ paraSep @ replicate 2001 CHR ''b'') 2000
      = Some [''a'', replicate 2001 CHR ''b'']"
    by (rule splitMessage_two_paragraphs [rotated]) simp_all
  then show ?thesis by simp
qed

section \<open>A paragraph of exactly the bound\<close>

lemma exact_paragraph_step:
  assumes "0 < maxLen" and "length p = maxLen"
  shows "paragraphStep maxLen s p = Some (flush s, p)"
  using assms paragraphStep_pos [OF assms(1), of "fst s" "snd s" p]
  by (auto simp: flush_def)

lemma parts_grow_step:
  assumes "0 < maxLen" and "paragraphStep maxLen s p = Some s'"
  shows "\<exists>more. fst s' = fst s @ more"
  using assms(2) paragraphStep_pos [OF assms(1), of "fst s" "snd s" p]
  by (auto split: if_splits)

lemma parts_grow_loop:
  assumes "0 < maxLen" and "paragraphLoop maxLen ps s = Some s'"
  shows "\<exists>more. fst s' = fst s @ more"
  using assms(2)
proof (induction ps arbitrary: s)
  case Nil
  then show ?case by simp
next
  case (Cons p ps)
  from Cons.prems obtain s1 where s1: "paragraphStep maxLen s p = Some s1"
    and rest: "paragraphLoop maxLen ps s1 = Some s'"
    by (auto split: option.splits)
  from parts_grow_step [OF assms(1) s1] Cons.IH [OF rest] show ?case
    by auto
qed

lemma full_chunk_kept:
  assumes "0 < maxLen" and "c \<noteq> []" and "maxLen < length c + 2"
    and "paragraphLoop maxLen qs (parts, c) = Some s'"
  shows "\<exists>rest. flush s' = parts @ c # rest"
proof (cases qs)
  case Nil
  with assms(2,4) show ?thesis by (auto simp: flush_def)
next
  case (Cons q qs')
  have "paragraphStep maxLen (parts, c) q = Some (parts @ [c], q)"
    using assms(2,3) by (simp add: paragraphStep_pos [OF assms(1)])
  with assms(4) Cons have "paragraphLoop maxLen qs' (parts @ [c], q) = Some s'"
    by simp
  from parts_grow_loop [OF assms(1) this] obtain more where "fst s' = parts @ c # more"
    by auto
  then show ?thesis by (auto simp: flush_def)
qed

text \<open>
  Claim C7. For a positive bound, a paragraph of the text whose length is exactly
  \<open>maxLen\<close> is a chunk of its own in the result, whole: the result is the chunks
  made from the paragraphs in front of it, then the paragraph itself, then the chunks
  that come after. It is neither joined to a neighbour, nor force-sliced.
\<close>

theorem splitMessage_exact_paragraph_intact:
  assumes "0 < maxLen" and "splitParagraphs text = ps1 @ p # ps2" and "length p = maxLen"
  shows "\<exists>s rest. paragraphLoop maxLen ps1 ([], []) = Some s \<and>
           splitMessage text maxLen = Some (flush s @ p # rest)"
proof (cases "length text \<le> maxLen")
  case True
  have j: "joinSep (ps1 @ p # ps2) = text"
    using joinSep_splitParagraphs [of "text"] by (simp only: assms(2))
  have "length text = sum_list (map length (ps1 @ p # ps2)) + 2 * (length (ps1 @ p # ps2) - 1)"
    using length_joinSep [of "ps1 @ p # ps2"] by (simp only: j)
  with True assms(3) have "ps1 = []" "ps2 = []" by auto
  with j have "text = p" by simp
  with assms(1,3) have "splitMessage text maxLen = Some [p]"
    by (auto simp: splitMessage_def)
  with \<open>ps1 = []\<close> show ?thesis by (simp add: flush_def)
next
  case False
  from paragraphLoop_total [OF assms(1)]
  obtain s where s: "paragraphLoop maxLen ps1 ([], []) = Some s" by blast
  from paragraphLoop_total [OF assms(1)]
  obtain s' where s': "paragraphLoop maxLen ps2 (flush s, p) = Some s'" by blast
  have "paragraphLoop maxLen (ps1 @ p # ps2) ([], []) = Some s'"
    using s s' exact_paragraph_step [OF assms(1,3)]
    by (simp add: paragraphLoop_append)
  with False assms(2) have r: "splitMessage text maxLen = Some (flush s')"
    by (simp add: splitMessage_long)
  from assms(1,3) have "p \<noteq> []" "maxLen < length p + 2" by auto
  from full_chunk_kept [OF assms(1) this s'] obtain rest where "flush s' = flush s @ p # rest"
    by blast
  with r s show ?thesis by simp
qed

theorem splitMessage_exact_paragraph_intact_witness:
  "(0::nat) < 3 \<and>
   splitParagraphs ''ab\<newline>\<newline>xyz\<newline>\<newline>cd'' = [''ab''] @ ''xyz'' # [''cd''] \<and>
   length ''xyz'' = 3 \<and>
   paragraphLoop 3 [''ab''] ([], []) = Some ([], ''ab'') \<and>
   splitMessage ''ab\<newline>\<newline>xyz\<newline>\<newline>cd'' 3 = Some [''ab'', ''xyz'', ''cd'']"
proof -
  have e: "splitParagraphs ''ab\<newline>\<newline>xyz\<newline>\<newline>cd'' = [''ab''] @ ''xyz'' # [''cd'']"
    "paragraphLoop 3 [''ab''] ([], []) = Some ([], ''ab'')"
    "splitMessage ''ab\<newline>\<newline>xyz\<newline>\<newline>cd'' 3 = Some [''ab'', ''xyz'', ''cd'']"
    by code_simp+
  from splitMessage_exact_paragraph_intact [of 3 "''ab\<newline>\<newline>xyz\<newline>\<newline>cd''" "[''ab'']" "''xyz''" "[''cd'']"] e
  show ?thesis by simp
qed

section \<open>Putting the text together again\<close>

lemma map_snd_markPieces [simp]: "map snd (markPieces cs) = cs"
  by (cases cs) (simp_all add: comp_def)

lemma glue_append [simp]: "glue (xs @ ys) = glue xs @ glue ys"
  by (induction xs rule: glue.induct) simp_all

lemma glue_hard [simp]: "glue (map (Pair HardSlice) cs) = concat cs"
  by (induction cs) simp_all

lemma glue_markPieces: "cs \<noteq> [] \<Longrightarrow> glue (markPieces cs) = paraSep @ concat cs"
  by (cases cs) simp_all

lemma forceSliceMarked_slices:
  assumes "0 < maxLen"
  shows "forceSliceMarked p i maxLen parts = Some (parts @
     (if i = 0 then markPieces (slices maxLen (drop i p))
      else map (Pair HardSlice) (slices maxLen (drop i p))))"
proof (induction "length p - i" arbitrary: i parts rule: less_induct)
  case less
  show ?case
  proof (cases "i < length p")
    case True
    let ?piece = "(if i = 0 then ParagraphBreak else HardSlice, take maxLen (drop i p))"
    from True assms have "length p - (i + maxLen) < length p - i" by arith
    then have "forceSliceMarked p (i + maxLen) maxLen (parts @ [?piece])
        = Some ((parts @ [?piece]) @
            (if i + maxLen = 0 then markPieces (slices maxLen (drop (i + maxLen) p))
             else map (Pair HardSlice) (slices maxLen (drop (i + maxLen) p))))"
      by (rule less.hyps)
    moreover have "slices maxLen (drop i p) = take maxLen (drop i p) # slices maxLen (drop (i + maxLen) p)"
      using True assms by (simp add: slices_step add.commute)
    ultimately have "forceSliceMarked p (i + maxLen) maxLen (parts @ [?piece])
        = Some (parts @
            (if i = 0 then markPieces (slices maxLen (drop i p))
             else map (Pair HardSlice) (slices maxLen (drop i p))))"
      using assms by (cases "i = 0") simp_all
    then show ?thesis
      using True by (subst forceSliceMarked.simps) (simp only: if_True)
  next
    case False
    then have e: "slices maxLen (drop i p) = []" by simp
    have "(if i = 0 then markPieces (slices maxLen (drop i p))
           else map (Pair HardSlice) (slices maxLen (drop i p))) = []"
      by (simp only: e markPieces.simps list.map if_cancel)
    with False show ?thesis
      by (subst forceSliceMarked.simps) (simp only: if_False append_Nil2)
  qed
qed

lemma paragraphStepMarked_pos:
  assumes "0 < maxLen"
  shows "paragraphStepMarked maxLen (parts, chunk) p = Some
     (if chunk \<noteq> [] then
        (if maxLen < length chunk + 2 + length p then (parts @ [(ParagraphBreak, chunk)], p)
         else (parts, chunk @ paraSep @ p))
      else
        (if maxLen < length p then (parts @ markPieces (slices maxLen p), [])
         else (parts, p)))"
  by (simp add: paragraphStepMarked_def forceSliceMarked_slices [OF assms])

text \<open>Forgetting the marks gives the function of the source.\<close>

lemma paragraphStepMarked_erase:
  assumes "0 < maxLen"
  shows "map_option (\<lambda>s. (map snd (fst s), snd s)) (paragraphStepMarked maxLen s p)
       = paragraphStep maxLen (map snd (fst s), snd s) p"
  using paragraphStepMarked_pos [OF assms, of "fst s" "snd s" p]
    paragraphStep_pos [OF assms, of "map snd (fst s)" "snd s" p]
  by simp

lemma paragraphLoopMarked_erase:
  assumes "0 < maxLen"
  shows "map_option (\<lambda>s. (map snd (fst s), snd s)) (paragraphLoopMarked maxLen ps s)
       = paragraphLoop maxLen ps (map snd (fst s), snd s)"
proof (induction ps arbitrary: s)
  case Nil
  show ?case by simp
next
  case (Cons p ps)
  show ?case
  proof (cases "paragraphStepMarked maxLen s p")
    case None
    with paragraphStepMarked_erase [OF assms, of s p] show ?thesis by simp
  next
    case (Some s1)
    with paragraphStepMarked_erase [OF assms, of s p]
    have "paragraphStep maxLen (map snd (fst s), snd s) p = Some (map snd (fst s1), snd s1)"
      by simp
    with Some Cons.IH [of s1] show ?thesis by simp
  qed
qed

lemma flushMarked_erase: "map snd (flushMarked s) = flush (map snd (fst s), snd s)"
  by (simp add: flushMarked_def flush_def)

lemma splitMessageMarked_erase:
  assumes "0 < maxLen"
  shows "map_option (map snd) (splitMessageMarked text maxLen) = splitMessage text maxLen"
proof (cases "length text \<le> maxLen")
  case True
  then show ?thesis by (simp add: splitMessageMarked_def splitMessage_def)
next
  case False
  then have ne: "text \<noteq> []" by auto
  show ?thesis
  proof (cases "paragraphLoopMarked maxLen (splitParagraphs text) ([], [])")
    case None
    with paragraphLoopMarked_erase [OF assms, of "splitParagraphs text" "([], [])"] False ne
    show ?thesis by (simp add: splitMessageMarked_def splitMessage_def)
  next
    case (Some s)
    with paragraphLoopMarked_erase [OF assms, of "splitParagraphs text" "([], [])"]
    have "paragraphLoop maxLen (splitParagraphs text) ([], []) = Some (map snd (fst s), snd s)"
      by simp
    with Some False ne show ?thesis
      by (simp add: splitMessageMarked_def splitMessage_def flushMarked_erase)
  qed
qed

lemma markPieces_starts: "markPieces cs = [] \<or> fst (hd (markPieces cs)) = ParagraphBreak"
  by (cases cs) simp_all

lemma starts_step:
  assumes "0 < maxLen" and "fst s = [] \<or> fst (hd (fst s)) = ParagraphBreak"
    and "paragraphStepMarked maxLen s p = Some s'"
  shows "fst s' = [] \<or> fst (hd (fst s')) = ParagraphBreak"
  using assms(2,3) paragraphStepMarked_pos [OF assms(1), of "fst s" "snd s" p]
    markPieces_starts [of "slices maxLen p"]
  by (auto simp: hd_append split: if_splits)

lemma glue_step:
  assumes "0 < maxLen" and "p \<noteq> []" and "paragraphStepMarked maxLen s p = Some s'"
  shows "glue (flushMarked s') = glue (flushMarked s) @ paraSep @ p"
proof -
  have "glue (markPieces (slices maxLen p)) = paraSep @ p"
    using assms(1,2) by (simp add: glue_markPieces slices_eq_Nil concat_slices)
  with assms(2,3) paragraphStepMarked_pos [OF assms(1), of "fst s" "snd s" p]
  show ?thesis
    by (auto simp: flushMarked_def split: if_splits)
qed

lemma marked_loop:
  assumes "0 < maxLen" and "[] \<notin> set ps"
    and "fst s = [] \<or> fst (hd (fst s)) = ParagraphBreak"
    and "paragraphLoopMarked maxLen ps s = Some s'"
  shows "glue (flushMarked s') = glue (flushMarked s) @ concat (map ((@) paraSep) ps) \<and>
         (fst s' = [] \<or> fst (hd (fst s')) = ParagraphBreak)"
  using assms(2,3,4)
proof (induction ps arbitrary: s)
  case Nil
  then show ?case by simp
next
  case (Cons p ps)
  from Cons.prems(3) obtain s1 where s1: "paragraphStepMarked maxLen s p = Some s1"
    and rest: "paragraphLoopMarked maxLen ps s1 = Some s'"
    by (auto split: option.splits)
  from Cons.prems(1) have p: "p \<noteq> []" and ps: "[] \<notin> set ps" by auto
  from Cons.IH [OF ps starts_step [OF assms(1) Cons.prems(2) s1] rest]
    glue_step [OF assms(1) p s1]
  show ?case by simp
qed

lemma concat_map_sep: "ps \<noteq> [] \<Longrightarrow> concat (map ((@) paraSep) ps) = paraSep @ joinSep ps"
proof (induction ps)
  case Nil
  then show ?case by simp
next
  case (Cons p ps)
  then show ?case by (cases "ps = []") (simp_all add: joinSep_Cons)
qed

lemma rejoin_of_glue:
  assumes "glue marked = paraSep @ t" and "marked = [] \<or> fst (hd marked) = ParagraphBreak"
  shows "rejoin marked = t"
proof (cases marked)
  case Nil
  with assms(1) show ?thesis by simp
next
  case (Cons x rest)
  obtain b c where x: "x = (b, c)" by (cases x)
  with Cons assms(2) have "b = ParagraphBreak" by simp
  with Cons x assms(1) show ?thesis by simp
qed

text \<open>
  Claim C2, as the code has it. For a positive bound and a text that either fits the
  bound or has no empty paragraph, the chunks concatenated, with the separator put back
  between two chunks split at a paragraph boundary and nothing put back at a hard-slice
  boundary, are the text: nothing is reordered, cut off or lost. The marked chunks are
  those of \<open>splitMessage\<close> itself.
\<close>

theorem splitMessage_rejoin:
  assumes "0 < maxLen" and "length text \<le> maxLen \<or> [] \<notin> set (splitParagraphs text)"
  shows "\<exists>marked. splitMessageMarked text maxLen = Some marked \<and>
           splitMessage text maxLen = Some (map snd marked) \<and>
           rejoin marked = text"
proof -
  from splitMessage_total [OF assms(1)] obtain parts where "splitMessage text maxLen = Some parts"
    by blast
  with splitMessageMarked_erase [OF assms(1), of "text"]
  obtain marked where m: "splitMessageMarked text maxLen = Some marked"
    and e: "splitMessage text maxLen = Some (map snd marked)"
    by auto
  have "rejoin marked = text"
  proof (cases "length text \<le> maxLen")
    case True
    with m show ?thesis by (auto simp: splitMessageMarked_def split: if_splits)
  next
    case False
    with assms(2) have ne: "[] \<notin> set (splitParagraphs text)" by simp
    from False m obtain s where l: "paragraphLoopMarked maxLen (splitParagraphs text) ([], []) = Some s"
      and f: "marked = flushMarked s"
      by (auto simp: splitMessageMarked_def split: if_splits option.splits)
    from marked_loop [OF assms(1) ne _ l]
    have g: "glue (flushMarked s) = concat (map ((@) paraSep) (splitParagraphs text))"
      and h: "fst s = [] \<or> fst (hd (fst s)) = ParagraphBreak"
      by (simp_all add: flushMarked_def)
    have "splitParagraphs text \<noteq> []"
      by (simp add: splitParagraphs_def)
    with g have "glue (flushMarked s) = paraSep @ text"
      by (simp add: concat_map_sep joinSep_splitParagraphs)
    moreover from h have "flushMarked s = [] \<or> fst (hd (flushMarked s)) = ParagraphBreak"
      by (auto simp: flushMarked_def hd_append)
    ultimately show ?thesis
      unfolding f by (rule rejoin_of_glue)
  qed
  with m e show ?thesis by blast
qed

theorem splitMessage_rejoin_witness:
  "(0::nat) < 6 \<and>
   [] \<notin> set (splitParagraphs ''abcdefgh\<newline>\<newline>ij\<newline>\<newline>kl\<newline>\<newline>mn'') \<and>
   splitMessageMarked ''abcdefgh\<newline>\<newline>ij\<newline>\<newline>kl\<newline>\<newline>mn'' 6
     = Some [(ParagraphBreak, ''abcdef''), (HardSlice, ''gh''),
             (ParagraphBreak, ''ij\<newline>\<newline>kl''), (ParagraphBreak, ''mn'')] \<and>
   splitMessage ''abcdefgh\<newline>\<newline>ij\<newline>\<newline>kl\<newline>\<newline>mn'' 6
     = Some [''abcdef'', ''gh'', ''ij\<newline>\<newline>kl'', ''mn''] \<and>
   ''abcdef'' @ ''gh'' @ paraSep @ ''ij\<newline>\<newline>kl'' @ paraSep @ ''mn''
     = ''abcdefgh\<newline>\<newline>ij\<newline>\<newline>kl\<newline>\<newline>mn''"
proof -
  have e: "[] \<notin> set (splitParagraphs ''abcdefgh\<newline>\<newline>ij\<newline>\<newline>kl\<newline>\<newline>mn'')"
    "splitMessageMarked ''abcdefgh\<newline>\<newline>ij\<newline>\<newline>kl\<newline>\<newline>mn'' 6
     = Some [(ParagraphBreak, ''abcdef''), (HardSlice, ''gh''),
             (ParagraphBreak, ''ij\<newline>\<newline>kl''), (ParagraphBreak, ''mn'')]"
    by code_simp+
  from splitMessage_rejoin [of 6 "''abcdefgh\<newline>\<newline>ij\<newline>\<newline>kl\<newline>\<newline>mn''"] e
  show ?thesis by (simp add: paraSep_def)
qed

text \<open>
  Claim C2 as the specification states it fails: an empty paragraph met while the
  buffer is empty leaves no trace, so the separator next to it is lost. The text
  \<open>"\n\nabcd"\<close> with the bound 3 gives the chunks \<open>abc\<close> and \<open>d\<close>, split at a
  hard-slice boundary, and neither way of joining them gives the text back.
\<close>

theorem splitMessage_leading_separator_lost:
  "splitMessage ''\<newline>\<newline>abcd'' 3 = Some [''abc'', ''d''] \<and>
   splitMessageMarked ''\<newline>\<newline>abcd'' 3 = Some [(ParagraphBreak, ''abc''), (HardSlice, ''d'')] \<and>
   rejoin [(ParagraphBreak, ''abc''), (HardSlice, ''d'')] \<noteq> ''\<newline>\<newline>abcd'' \<and>
   ''abc'' @ ''d'' \<noteq> ''\<newline>\<newline>abcd'' \<and>
   ''abc'' @ paraSep @ ''d'' \<noteq> ''\<newline>\<newline>abcd''"
  by code_simp

end
